theory Spec2Isabelle
  imports Main "HOL-Library.Sublist"
begin

section \<open>CitationHunt: the live parser (scripts/parse\_live.py)\<close>

text \<open>
  The script reads page identifiers, cuts them into batches of 32, hands the batches to a
  process pool, and every worker process fetches the pages of a batch, extracts the
  snippets lacking a citation and stores articles and snippets in the scratch database.
  The embedding below follows the script function by function. What the script only
  calls (the remote API, the snippet parser, the hash \<open>mkid\<close>, the database server, the
  process pool) enters as a parameter or as a small model that says where it comes from.
\<close>

subsection \<open>Strings\<close>

text \<open>
  The script runs under Python 2 with \<open>unicode_literals\<close>: titles, section names and
  snippets are \<open>unicode\<close> objects, modelled as lists of code points; a \<open>str\<close> is a byte
  string, modelled as \<^typ>\<open>string\<close> (a \<^typ>\<open>char\<close> is one byte).
\<close>

type_synonym ustring = "nat list"

definition u :: "string \<Rightarrow> ustring" where
  \<comment> \<open>an ASCII literal of the script read as a unicode object\<close>
  "u s = map of_char s"

text \<open>
  \<open>s.replace(old, new)\<close>: every non-overlapping occurrence of \<open>old\<close>, leftmost first.
  For an empty \<open>old\<close> Python puts \<open>new\<close> before every element and at the end.
\<close>

function replace :: "'a list \<Rightarrow> 'a list \<Rightarrow> 'a list \<Rightarrow> 'a list" where
  "replace old new s =
     (if old = [] then new @ concat (map (\<lambda>c. c # new) s)
      else if s = [] then []
      else if prefix old s then new @ replace old new (drop (length old) s)
      else hd s # replace old new (tl s))"
  by pat_completeness auto
termination
  by (relation "measure (\<lambda>(old, new, s). length s)") auto

declare replace.simps [simp del]

text \<open>
  Modelled from the spec: \<open>e\<close> is defined in the module \<open>utils\<close>, not in this script; the
  specification says the section name is encoded as UTF-8 bytes before it is quoted.
\<close>

definition utf8_encode :: "nat \<Rightarrow> string" where
  "utf8_encode cp =
     (if cp < 0x80 then [char_of cp]
      else if cp < 0x800 then
        [char_of (0xC0 + cp div 0x40), char_of (0x80 + cp mod 0x40)]
      else if cp < 0x10000 then
        [char_of (0xE0 + cp div 0x1000), char_of (0x80 + cp div 0x40 mod 0x40),
         char_of (0x80 + cp mod 0x40)]
      else
        [char_of (0xF0 + cp div 0x40000 mod 8), char_of (0x80 + cp div 0x1000 mod 0x40),
         char_of (0x80 + cp div 0x40 mod 0x40), char_of (0x80 + cp mod 0x40)])"

definition e :: "ustring \<Rightarrow> string" where
  "e s = concat (map utf8_encode s)"

subsection \<open>Anchor encoder\<close>

text \<open>
  \<open>urllib.quote\<close> of the Python 2 standard library: the characters of \<open>always_safe\<close>
  (letters, digits, underscore, dot, hyphen) and of the argument \<open>safe\<close> stay, every other
  byte becomes \<open>%XX\<close> with two upper-case hexadecimal digits. The two early returns of
  the library function are kept.
\<close>

definition always_safe :: string where
  "always_safe = ''ABCDEFGHIJKLMNOPQRSTUVWXYZabcdefghijklmnopqrstuvwxyz0123456789_.-''"

definition hexdigit :: "nat \<Rightarrow> char" where
  "hexdigit n = ''0123456789ABCDEF'' ! n"

definition quoter :: "string \<Rightarrow> char \<Rightarrow> string" where
  "quoter safe c =
     (if c \<in> set safe \<or> ((of_char c :: nat) < 128 \<and> c \<in> set always_safe) then [c]
      else [CHR ''%'', hexdigit (of_char c div 16), hexdigit (of_char c mod 16)])"

definition quote :: "string \<Rightarrow> string \<Rightarrow> string" where
  "quote s safe =
     (if s = [] then s
      else if list_all (\<lambda>c. c \<in> set (always_safe @ safe)) s then s
      else concat (map (quoter safe) s))"

definition section_name_to_anchor :: "ustring \<Rightarrow> string" where
  "section_name_to_anchor section =
     (let section1 = replace (u '' '') (u ''_'') section;
          section2 = quote (e section1) (e (u ''''));
          section3 = replace ''%3A'' '':'' section2;
          section4 = replace ''%'' ''.'' section3
      in section4)"

text \<open>
  What the four steps leave of one byte of the UTF-8 form, written after the
  specification: a colon stays, an unreserved character stays, any other byte becomes a
  dot and its two hexadecimal digits.
\<close>

definition escaped_colon :: "char \<Rightarrow> string" where
  "escaped_colon c = (if c = CHR '':'' then '':'' else quoter [] c)"

definition anchor_byte :: "char \<Rightarrow> string" where
  "anchor_byte c =
     (if c = CHR '':'' then '':''
      else if c \<in> set always_safe then [c]
      else [CHR ''.'', hexdigit (of_char c div 16), hexdigit (of_char c mod 16)])"

definition spaces_to_underscores :: "ustring \<Rightarrow> ustring" where
  "spaces_to_underscores s = map (\<lambda>c. if c = 32 then 95 else c) s"

subsection \<open>Errors and the outside world\<close>

datatype error =
    KeyError string
  | IndexError
  | IntegrityError
  | External string

type_synonym pageid = string

text \<open>
  One entry of \<open>response['query']['pages']\<close>: the key \<open>title\<close> may be absent, so may
  \<open>revisions\<close>, and a revision may lack the key \<open>*\<close> that holds the text.
\<close>

record page =
  page_title :: "ustring option"
  page_revisions :: "ustring option list option"

text \<open>A response without \<open>['query']['pages']\<close> is \<open>None\<close>.\<close>

type_synonym response = "(pageid \<times> page) list option"

type_synonym fetched = "pageid \<times> ustring \<times> ustring"

text \<open>
  The collaborators of a worker: the configuration, the paged remote query
  (\<open>request.queryGen()\<close>: the responses it yields and the exception that ends it, if any),
  the snippet parser and the hash of \<open>utils.mkid\<close>.
\<close>

record env =
  wikipedia_domain :: ustring
  snippet_min_size :: nat
  snippet_max_size :: nat
  queryGen :: "pageid list \<Rightarrow> response list \<times> error option"
  extract_snippets :: "ustring \<Rightarrow> nat \<Rightarrow> nat \<Rightarrow> error + (ustring \<times> ustring list) list"
  mkid :: "ustring \<Rightarrow> string"

definition WIKIPEDIA_BASE_URL :: "env \<Rightarrow> ustring" where
  "WIKIPEDIA_BASE_URL cfg = u ''https://'' @ wikipedia_domain cfg"

definition WIKIPEDIA_WIKI_URL :: "env \<Rightarrow> ustring" where
  "WIKIPEDIA_WIKI_URL cfg = WIKIPEDIA_BASE_URL cfg @ u ''/wiki/''"

definition MAX_EXCEPTIONS_PER_SUBPROCESS :: nat where
  "MAX_EXCEPTIONS_PER_SUBPROCESS = 5"

subsection \<open>Remote fetch client\<close>

text \<open>
  \<open>query_pageids\<close> is a generator. Its run is the list of the tuples it yields and the
  exception that ends it, if one does. \<open>utils.d\<close> decodes to \<open>unicode\<close> and leaves a
  \<open>unicode\<close> object as it is.
\<close>

fun pages_loop :: "(pageid \<times> page) list \<Rightarrow> fetched list \<times> error option" where
  "pages_loop [] = ([], None)"
| "pages_loop ((ident, page) # rest) =
     (case page_title page of
        None \<Rightarrow> pages_loop rest
      | Some title \<Rightarrow>
          (case page_revisions page of
             None \<Rightarrow> ([], Some (KeyError ''revisions''))
           | Some [] \<Rightarrow> ([], Some IndexError)
           | Some (None # _) \<Rightarrow> ([], Some (KeyError ''*''))
           | Some (Some text # _) \<Rightarrow>
               if text = [] then pages_loop rest
               else (case pages_loop rest of (ys, fin) \<Rightarrow> ((ident, title, text) # ys, fin))))"

fun responses_loop :: "response list \<Rightarrow> error option \<Rightarrow> fetched list \<times> error option" where
  "responses_loop [] fin = ([], fin)"
| "responses_loop (None # rest) fin = ([], Some (KeyError ''query''))"
| "responses_loop (Some pages # rest) fin =
     (case pages_loop pages of
        (ys, Some ex) \<Rightarrow> (ys, Some ex)
      | (ys, None) \<Rightarrow> (case responses_loop rest fin of (zs, fin') \<Rightarrow> (ys @ zs, fin')))"

definition query_pageids :: "env \<Rightarrow> pageid list \<Rightarrow> fetched list \<times> error option" where
  "query_pageids cfg pageids =
     (case queryGen cfg pageids of (responses, fin) \<Rightarrow> responses_loop responses fin)"

subsection \<open>Storage\<close>

type_synonym article_row = "pageid \<times> ustring \<times> ustring"

type_synonym snippet_row = "string \<times> ustring \<times> string \<times> pageid"

record row =
  article :: article_row
  snippets :: "snippet_row list"

record database =
  articles_table :: "article_row list"
  snippets_table :: "snippet_row list"

datatype statement =
    InsertArticle article_row
  | InsertIgnoreSnippets "snippet_row list"

text \<open>
  The callback \<open>insert\<close> of \<open>work\<close> as the statements it executes on the cursor, in the
  order of the source.
\<close>

definition insert_row :: "row \<Rightarrow> statement list" where
  "insert_row r = [InsertArticle (article r), InsertIgnoreSnippets (snippets r)]"

text \<open>
  Modelled from the spec: the schema and the connection wrapper are defined in the module
  \<open>chdb\<close>, not in this script. After the specification, \<open>articles\<close> has the primary key
  \<open>pageid\<close> and \<open>snippets\<close> the primary key \<open>id\<close>; a plain \<open>INSERT\<close> of an existing key is an
  error, \<open>INSERT IGNORE\<close> skips the rows whose key exists; \<open>execute_with_retry\<close> runs the
  callback as one unit on the worker's connection. Transient storage failures, which the
  wrapper retries, are not part of this model.
\<close>

definition insert_ignore :: "snippet_row list \<Rightarrow> snippet_row \<Rightarrow> snippet_row list" where
  "insert_ignore tbl r = (if fst r \<in> set (map fst tbl) then tbl else tbl @ [r])"

fun execute :: "database \<Rightarrow> statement \<Rightarrow> error + database" where
  "execute db (InsertArticle r) =
     (if fst r \<in> set (map fst (articles_table db)) then Inl IntegrityError
      else Inr (db\<lparr>articles_table := articles_table db @ [r]\<rparr>))"
| "execute db (InsertIgnoreSnippets rs) =
     Inr (db\<lparr>snippets_table := foldl insert_ignore (snippets_table db) rs\<rparr>)"

fun executes :: "database \<Rightarrow> statement list \<Rightarrow> error + database" where
  "executes db [] = Inr db"
| "executes db (s # ss) =
     (case execute db s of Inl ex \<Rightarrow> Inl ex | Inr db' \<Rightarrow> executes db' ss)"

definition execute_with_retry :: "(row \<Rightarrow> statement list) \<Rightarrow> row \<Rightarrow> database \<Rightarrow> error + database" where
  "execute_with_retry operations r db = executes db (operations r)"

subsection \<open>Per-process state and the exception budget\<close>

text \<open>
  The module-level object \<open>self\<close>. The parser, the wiki handle and the opener that
  \<open>initializer\<close> also stores are the collaborators of \<^typ>\<open>env\<close>; \<open>tracebacks\<close> is what
  \<open>traceback.print_exc()\<close> has printed so far.
\<close>

record State =
  chdb :: database
  exception_count :: nat
  tracebacks :: "error list"

definition initializer :: "database \<Rightarrow> State" where
  "initializer db = \<lparr>chdb = db, exception_count = 0, tracebacks = []\<rparr>"

text \<open>
  The decorator. The wrapped function returns its value or raises, and in both cases
  leaves a state behind; the wrapper returns \<open>None\<close> after an exception it swallows.
  The result \<open>Inr (Some v)\<close> is the value \<open>v\<close> the function returned, \<open>Inr None\<close> the
  \<open>None\<close> after a swallowed exception, \<open>Inl ex\<close> the exception raised again.
\<close>

definition with_max_exceptions ::
  "('a \<Rightarrow> State \<Rightarrow> (error + 'r) \<times> State) \<Rightarrow> 'a \<Rightarrow> State \<Rightarrow> (error + 'r option) \<times> State" where
  "with_max_exceptions fn args st =
     (case fn args st of
        (Inr v, st') \<Rightarrow> (Inr (Some v), st')
      | (Inl ex, st') \<Rightarrow>
          (let st'' = st'\<lparr>tracebacks := tracebacks st' @ [ex],
                          exception_count := exception_count st' + 1\<rparr>
           in if exception_count st'' > MAX_EXCEPTIONS_PER_SUBPROCESS
              then (Inl ex, st'')
              else (Inr None, st'')))"

subsection \<open>The worker\<close>

definition snippets_rows_of ::
  "env \<Rightarrow> pageid \<Rightarrow> ustring \<Rightarrow> (ustring \<times> ustring list) list \<Rightarrow> snippet_row list" where
  "snippets_rows_of cfg pageid title snips_by_section =
     concat (map (\<lambda>(sec, snips).
       map (\<lambda>sni. (mkid cfg (title @ sni), sni, section_name_to_anchor sec, pageid)) snips)
       snips_by_section)"

fun rows_loop :: "env \<Rightarrow> fetched list \<Rightarrow> row list \<Rightarrow> error + row list" where
  "rows_loop cfg [] rows = Inr rows"
| "rows_loop cfg ((pageid, title, wikitext) # rest) rows =
     (let url = WIKIPEDIA_WIKI_URL cfg @ replace (u '' '') (u ''_'') title in
      case extract_snippets cfg wikitext (snippet_min_size cfg) (snippet_max_size cfg) of
        Inl ex \<Rightarrow> Inl ex
      | Inr snips_by_section \<Rightarrow>
          (let snippets_rows = snippets_rows_of cfg pageid title snips_by_section in
           if snippets_rows \<noteq> []
           then rows_loop cfg rest
                  (rows @ [\<lparr>article = (pageid, url, title), snippets = snippets_rows\<rparr>])
           else rows_loop cfg rest rows))"

text \<open>
  The first loop of \<open>work\<close>: it draws the tuples from the generator one by one, so an
  exception of the generator arrives after the tuples yielded before it.
\<close>

definition build_rows :: "env \<Rightarrow> pageid list \<Rightarrow> error + row list" where
  "build_rows cfg pageids =
     (case query_pageids cfg pageids of
        (results, fin) \<Rightarrow>
          (case rows_loop cfg results [] of
             Inl ex \<Rightarrow> Inl ex
           | Inr rows \<Rightarrow> (case fin of Some ex \<Rightarrow> Inl ex | None \<Rightarrow> Inr rows)))"

text \<open>The second loop of \<open>work\<close>: one call of \<open>execute_with_retry\<close> for every element of \<open>rows\<close>.\<close>

fun write_loop :: "database \<Rightarrow> row list \<Rightarrow> error option \<times> database" where
  "write_loop db [] = (None, db)"
| "write_loop db (r # rs) =
     (case execute_with_retry insert_row r db of
        Inl ex \<Rightarrow> (Some ex, db)
      | Inr db' \<Rightarrow> write_loop db' rs)"

definition work_body :: "env \<Rightarrow> pageid list \<Rightarrow> State \<Rightarrow> (error + unit) \<times> State" where
  "work_body cfg pageids st =
     (case build_rows cfg pageids of
        Inl ex \<Rightarrow> (Inl ex, st)
      | Inr rows \<Rightarrow>
          (case write_loop (chdb st) rows of
             (Some ex, db) \<Rightarrow> (Inl ex, st\<lparr>chdb := db\<rparr>)
           | (None, db) \<Rightarrow> (Inr (), st\<lparr>chdb := db\<rparr>)))"

definition work :: "env \<Rightarrow> pageid list \<Rightarrow> State \<Rightarrow> (error + unit option) \<times> State" where
  "work cfg = with_max_exceptions (work_body cfg)"




text \<open>
  Modelled from the spec: the loop in which a process of the pool calls \<open>work\<close> belongs
  to the \<open>multiprocessing\<close> library, not to this script. After the specification a worker
  handles the batches it is handed one after the other, on the same \<open>self\<close>, and an
  exception that leaves \<open>work\<close> ends the worker. The result lists what every call
  returned or raised, up to the call that ended the run.
\<close>

fun run_worker :: "env \<Rightarrow> State \<Rightarrow> pageid list list \<Rightarrow> (error + unit option) list \<times> State" where
  "run_worker cfg st [] = ([], st)"
| "run_worker cfg st (batch # rest) =
     (case work cfg batch st of
        (Inl ex, st') \<Rightarrow> ([Inl ex], st')
      | (Inr v, st') \<Rightarrow> (case run_worker cfg st' rest of (outs, st'') \<Rightarrow> (Inr v # outs, st'')))"

definition failed :: "error + unit option \<Rightarrow> bool" where
  "failed out = (out \<noteq> Inr (Some ()))"

definition reraised :: "error + unit option \<Rightarrow> bool" where
  "reraised out = (case out of Inl ex \<Rightarrow> True | Inr v \<Rightarrow> False)"

definition failures :: "(error + unit option) list \<Rightarrow> nat" where
  "failures outs = length (filter failed outs)"

subsection \<open>Batching and the pool\<close>

definition batch_size :: nat where
  "batch_size = 32"

definition slice :: "'a list \<Rightarrow> nat \<Rightarrow> nat \<Rightarrow> 'a list" where
  \<comment> \<open>\<open>xs[i:j]\<close> for indices that are not negative\<close>
  "slice xs i j = take (j - i) (drop i xs)"

function tasks_loop :: "'a list \<Rightarrow> nat \<Rightarrow> 'a list list \<Rightarrow> 'a list list" where
  "tasks_loop pageids_list i tasks =
     (if i < length pageids_list
      then tasks_loop pageids_list (i + batch_size)
             (tasks @ [slice pageids_list i (i + batch_size)])
      else tasks)"
  by pat_completeness auto
termination
  by (relation "measure (\<lambda>(xs, i, tasks). length xs - i)") (auto simp: batch_size_def)

declare tasks_loop.simps [simp del]

text \<open>
  \<open>pageids_list = list(pageids)\<close> is the input set in the order the set iterates; the
  function takes that list.
\<close>

definition make_tasks :: "'a list \<Rightarrow> 'a list list" where
  "make_tasks pageids_list = tasks_loop pageids_list 0 []"

text \<open>
  The calls \<open>parse_live\<close> makes, in order. \<open>ready\<close> is what \<open>result.ready()\<close> answers once
  \<open>result.wait(timeout)\<close> has returned: whether every batch was done by the deadline.
\<close>

datatype 't event =
    ResetScratchDb
  | GetParser
  | PoolCreate
  | MapAsync "pageid list list"
  | PoolClose
  | ResultWait 't
  | LogInfo string
  | PoolTerminate
  | PoolJoin

definition parse_live :: "pageid list \<Rightarrow> 't \<Rightarrow> bool \<Rightarrow> 't event list" where
  "parse_live pageids_list timeout ready =
     [ResetScratchDb, GetParser, PoolCreate, MapAsync (make_tasks pageids_list), PoolClose,
      ResultWait timeout]
     @ (if \<not> ready then [LogInfo ''timeout, canceling the process pool!'', PoolTerminate]
        else [])
     @ [PoolJoin]"

definition main :: "pageid list \<Rightarrow> 't \<Rightarrow> bool \<Rightarrow> 't event list" where
  "main pageids_list timeout ready =
     parse_live pageids_list timeout ready @ [LogInfo ''all done.'']"

subsection \<open>A small run\<close>

text \<open>
  Collaborators for concrete runs, after the scenario of the specification: page 101 has
  one snippet under the section \<open>See also\<close>, page 102 has none, page 103 comes without a
  title, page 104 with an empty text, the parser fails on page 105, page 106 has the same
  snippet twice, and a batch that holds the identifier \<open>down\<close> finds the remote API
  unreachable.
\<close>

definition example_page :: "pageid \<Rightarrow> pageid \<times> page" where
  "example_page pageid =
     (pageid,
      \<lparr>page_title = (if pageid = ''103'' then None else Some (u ''Page '' @ u pageid)),
       page_revisions =
         Some [Some (if pageid = ''101'' then u ''X needs citation''
                     else if pageid = ''104'' then []
                     else if pageid = ''105'' then u ''broken''
                     else if pageid = ''106'' then u ''twice''
                     else u ''plain'')]\<rparr>)"

definition example_queryGen :: "pageid list \<Rightarrow> response list \<times> error option" where
  "example_queryGen pageids =
     (if ''down'' \<in> set pageids then ([], Some (External ''unreachable''))
      else ([Some (map example_page pageids)], None))"

definition example_extract ::
  "ustring \<Rightarrow> nat \<Rightarrow> nat \<Rightarrow> error + (ustring \<times> ustring list) list" where
  "example_extract wikitext min_size max_size =
     (if wikitext = u ''X needs citation'' then Inr [(u ''See also'', [u ''X needs citation''])]
      else if wikitext = u ''broken'' then Inl (External ''parser'')
      else if wikitext = u ''twice'' then Inr [(u ''History'', [u ''Y'', u ''Y''])]
      else Inr [])"

definition example_env :: env where
  "example_env =
     \<lparr>wikipedia_domain = u ''en.wikipedia.org'', snippet_min_size = 100,
      snippet_max_size = 500, queryGen = example_queryGen,
      extract_snippets = example_extract, mkid = e\<rparr>"

definition empty_db :: database where
  "empty_db = \<lparr>articles_table = [], snippets_table = []\<rparr>"

definition example_row :: row where
  "example_row =
     \<lparr>article = (''101'', WIKIPEDIA_WIKI_URL example_env @ replace (u '' '') (u ''_'') (u ''Page 101''),
                 u ''Page 101''),
      snippets = snippets_rows_of example_env ''101'' (u ''Page 101'')
                   [(u ''See also'', [u ''X needs citation''])]\<rparr>"

definition stored_db :: database where
  "stored_db =
     \<lparr>articles_table = [(''101'', u ''https://en.wikipedia.org/wiki/Page_101'', u ''Page 101'')],
      snippets_table = [(''k'', u ''X needs citation'', ''See_also'', ''101'')]\<rparr>"

definition flaky_batches :: "pageid list list" where
  "flaky_batches =
     [[''down''], [''102''], [''down''], [''102''], [''down''], [''down''], [''102''],
      [''down''], [''down''], [''102''], [''102'']]"

section \<open>Properties\<close>

subsection \<open>Anchor encoder\<close>

lemma replace_single:
  "replace [a] [b] s = map (\<lambda>c. if c = a then b else c) s"
proof (induction s)
  case Nil
  show ?case by (subst replace.simps) simp
next
  case (Cons x xs)
  then show ?case
    by (subst replace.simps) auto
qed

lemma always_safe_ascii: "c \<in> set always_safe \<Longrightarrow> (of_char c :: nat) < 128"
  by (auto simp: always_safe_def)

lemma always_safe_not_percent: "CHR ''%'' \<notin> set always_safe"
  by (simp add: always_safe_def)

lemma quoter_safe: "c \<in> set always_safe \<Longrightarrow> quoter [] c = [c]"
  by (simp add: quoter_def always_safe_ascii)

lemma quote_concat: "quote s [] = concat (map (quoter []) s)"
proof -
  have "list_all (\<lambda>c. c \<in> set always_safe) s \<Longrightarrow> concat (map (quoter []) s) = s"
    by (induction s) (simp_all add: quoter_safe)
  then show ?thesis
    by (simp add: quote_def)
qed

lemma lt16_cases:
  "n < 16 \<Longrightarrow> n \<in> {0, 1, 2, 3, 4, 5, 6, 7, 8, 9, 10, 11, 12, 13, 14, 15::nat}"
  by (simp only: insert_iff empty_iff) arith

lemma hexdigit_not_percent: "n < 16 \<Longrightarrow> hexdigit n \<noteq> CHR ''%''"
  by (drule lt16_cases) (auto simp: hexdigit_def)

lemma hexdigit_3: "n < 16 \<Longrightarrow> hexdigit n = CHR ''3'' \<Longrightarrow> n = 3"
  by (drule lt16_cases) (auto simp: hexdigit_def)

lemma hexdigit_A: "n < 16 \<Longrightarrow> hexdigit n = CHR ''A'' \<Longrightarrow> n = 10"
  by (drule lt16_cases) (auto simp: hexdigit_def)

lemma of_char_lt_256: "(of_char c :: nat) < 256"
  by (cases c) simp

lemma hex_3A:
  assumes "hexdigit (of_char c div 16) = CHR ''3''" "hexdigit (of_char c mod 16) = CHR ''A''"
  shows "c = CHR '':''"
proof -
  have "(of_char c :: nat) div 16 < 16"
    using of_char_lt_256 [of c] by arith
  then have a: "(of_char c :: nat) div 16 = 3"
    using assms(1) hexdigit_3 by blast
  have b: "(of_char c :: nat) mod 16 = 10"
    using assms(2) hexdigit_A by simp
  have "(of_char c :: nat) = 16 * (of_char c div 16) + of_char c mod 16"
    by simp
  then have "(of_char c :: nat) = of_char CHR '':''"
    using a b by simp
  then show ?thesis
    by (simp only: of_char_eq_iff)
qed

lemma quoter_colon: "quoter [] CHR '':'' = ''%3A''"
  by (simp add: quoter_def always_safe_def hexdigit_def)

lemma hex_hi: "hexdigit (of_char c div 16) \<noteq> CHR ''%''"
proof -
  have "(of_char c :: nat) div 16 < 16"
    using of_char_lt_256 [of c] by arith
  then show ?thesis by (rule hexdigit_not_percent)
qed

lemma hex_lo: "hexdigit (of_char c mod 16) \<noteq> CHR ''%''"
  by (rule hexdigit_not_percent) simp

lemma replace_3A_step:
  "replace ''%3A'' '':'' (quoter [] c @ rest) = escaped_colon c @ replace ''%3A'' '':'' rest"
proof (cases "c = CHR '':''")
  case True
  then show ?thesis
    by (subst replace.simps) (simp add: quoter_colon escaped_colon_def)
next
  case notcolon: False
  show ?thesis
  proof (cases "c \<in> set always_safe")
    case True
    then have "c \<noteq> CHR ''%''"
      using always_safe_not_percent by auto
    with True notcolon show ?thesis
      by (subst replace.simps) (simp add: quoter_safe escaped_colon_def)
  next
    case False
    define h1 where "h1 = hexdigit (of_char c div 16)"
    define h2 where "h2 = hexdigit (of_char c mod 16)"
    have q: "quoter [] c = [CHR ''%'', h1, h2]"
      using False by (simp add: quoter_def h1_def h2_def)
    have ne: "\<not> (h1 = CHR ''3'' \<and> h2 = CHR ''A'')"
      using hex_3A notcolon unfolding h1_def h2_def by blast
    have p1: "h1 \<noteq> CHR ''%''" unfolding h1_def by (rule hex_hi)
    have p2: "h2 \<noteq> CHR ''%''" unfolding h2_def by (rule hex_lo)
    have s1: "replace ''%3A'' '':'' (CHR ''%'' # h1 # h2 # rest)
                = CHR ''%'' # replace ''%3A'' '':'' (h1 # h2 # rest)"
      using ne by (subst replace.simps) auto
    have s2: "replace ''%3A'' '':'' (h1 # h2 # rest) = h1 # replace ''%3A'' '':'' (h2 # rest)"
      using p1 by (subst replace.simps) simp
    have s3: "replace ''%3A'' '':'' (h2 # rest) = h2 # replace ''%3A'' '':'' rest"
      using p2 by (subst replace.simps) simp
    show ?thesis
      using notcolon by (simp add: q s1 s2 s3 escaped_colon_def)
  qed
qed

lemma replace_3A_quoted:
  "replace ''%3A'' '':'' (concat (map (quoter []) bs)) = concat (map escaped_colon bs)"
proof (induction bs)
  case Nil
  show ?case by (subst replace.simps) simp
next
  case (Cons b bs)
  then show ?case by (simp add: replace_3A_step)
qed

lemma percent_to_dot_escaped:
  "map (\<lambda>c. if c = CHR ''%'' then CHR ''.'' else c) (escaped_colon c) = anchor_byte c"
proof (cases "c \<in> set always_safe")
  case True
  then have "c \<noteq> CHR ''%''"
    using always_safe_not_percent by auto
  with True show ?thesis
    by (simp add: escaped_colon_def anchor_byte_def quoter_safe)
next
  case False
  then show ?thesis
    using hex_hi [of c] hex_lo [of c]
    by (simp add: escaped_colon_def anchor_byte_def quoter_def)
qed

lemma section_name_to_anchor_bytes:
  "section_name_to_anchor section =
     concat (map anchor_byte (e (spaces_to_underscores section)))"
proof -
  have sp: "replace (u '' '') (u ''_'') section = spaces_to_underscores section"
    by (simp add: u_def replace_single spaces_to_underscores_def)
  have eu: "e (u []) = []"
    by (simp add: e_def u_def)
  have pd: "replace ''%'' ''.'' s = map (\<lambda>c. if c = CHR ''%'' then CHR ''.'' else c) s" for s
    by (rule replace_single)
  show ?thesis
    unfolding section_name_to_anchor_def Let_def sp eu quote_concat replace_3A_quoted pd
    by (simp add: map_concat comp_def percent_to_dot_escaped)
qed

lemma anchor_byte_no_percent: "CHR ''%'' \<notin> set (anchor_byte c)"
  using hex_hi [of c] hex_lo [of c] always_safe_not_percent
  by (auto simp: anchor_byte_def)

lemma anchor_colon:
  "section_name_to_anchor (s1 @ u '':'' @ s2) =
     section_name_to_anchor s1 @ '':'' @ section_name_to_anchor s2"
proof -
  have "utf8_encode 58 = '':''"
    by code_simp
  then show ?thesis
    by (simp add: section_name_to_anchor_bytes spaces_to_underscores_def e_def u_def
        anchor_byte_def)
qed

text \<open>
  Claim C4. The anchor of a section title is the four steps of the source in their order:
  spaces become underscores, the UTF-8 bytes outside the unreserved set of \<open>urllib.quote\<close>
  are percent-encoded with nothing marked safe, the escape of the colon is undone, and
  every percent sign left becomes a dot. Byte by byte this is \<^const>\<open>anchor_byte\<close>.
  \<open>See also\<close> becomes \<open>See_also\<close>, a colon of the title is a colon of the anchor, and
  no anchor contains a percent sign.
\<close>

theorem anchor_encoding:
  "section_name_to_anchor section = concat (map anchor_byte (e (spaces_to_underscores section)))
   \<and> section_name_to_anchor (u ''See also'') = ''See_also''
   \<and> section_name_to_anchor (s1 @ u '':'' @ s2)
       = section_name_to_anchor s1 @ '':'' @ section_name_to_anchor s2
   \<and> CHR ''%'' \<notin> set (section_name_to_anchor section)"
proof -
  have see: "section_name_to_anchor (u ''See also'') = ''See_also''"
    by code_simp
  have "CHR ''%'' \<notin> set (section_name_to_anchor section)"
    using anchor_byte_no_percent by (auto simp: section_name_to_anchor_bytes)
  then show ?thesis
    using section_name_to_anchor_bytes see anchor_colon by blast
qed

subsection \<open>Batching\<close>

lemma tasks_loop_concat:
  "concat (tasks_loop xs i tasks) = concat tasks @ drop i xs"
proof (induction xs i tasks rule: tasks_loop.induct)
  case (1 xs i tasks)
  show ?case
  proof (cases "i < length xs")
    case True
    have "take batch_size (drop i xs) @ drop (i + batch_size) xs = drop i xs"
      by (metis add.commute append_take_drop_id drop_drop)
    with True 1 show ?thesis
      by (subst tasks_loop.simps) (simp add: slice_def)
  next
    case False
    then show ?thesis by (subst tasks_loop.simps) simp
  qed
qed

lemma tasks_loop_batches:
  "\<forall>b \<in> set tasks. b \<noteq> [] \<and> length b \<le> batch_size \<Longrightarrow>
   \<forall>b \<in> set (tasks_loop xs i tasks). b \<noteq> [] \<and> length b \<le> batch_size"
proof (induction xs i tasks rule: tasks_loop.induct)
  case (1 xs i tasks)
  show ?case
  proof (cases "i < length xs")
    case True
    have "\<forall>b \<in> set (tasks @ [slice xs i (i + batch_size)]). b \<noteq> [] \<and> length b \<le> batch_size"
      using True "1.prems" by (auto simp: slice_def batch_size_def)
    with True "1.IH" show ?thesis
      by (subst tasks_loop.simps) simp
  next
    case False
    with "1.prems" show ?thesis by (subst tasks_loop.simps) simp
  qed
qed

lemma make_tasks_concat: "concat (make_tasks xs) = xs"
  by (simp add: make_tasks_def tasks_loop_concat)

lemma make_tasks_batches: "\<forall>b \<in> set (make_tasks xs). b \<noteq> [] \<and> length b \<le> batch_size"
  unfolding make_tasks_def by (rule tasks_loop_batches) simp

lemma unique_batch:
  assumes d: "distinct (concat tss)" and ne: "\<forall>b \<in> set tss. b \<noteq> []" and x: "x \<in> set (concat tss)"
  shows "\<exists>!k. k < length tss \<and> x \<in> set (tss ! k)"
proof -
  from ne have "removeAll [] tss = tss"
    by (intro removeAll_id) auto
  with d have dt: "distinct tss"
    and disj: "\<And>ys zs. ys \<in> set tss \<Longrightarrow> zs \<in> set tss \<Longrightarrow> ys \<noteq> zs \<Longrightarrow> set ys \<inter> set zs = {}"
    by (auto simp: distinct_concat_iff)
  from x obtain ys where "ys \<in> set tss" "x \<in> set ys" by auto
  then obtain k where k: "k < length tss" "x \<in> set (tss ! k)"
    by (auto simp: in_set_conv_nth)
  show ?thesis
  proof (rule ex1I [of _ k])
    show "k < length tss \<and> x \<in> set (tss ! k)" using k by simp
  next
    fix j assume j: "j < length tss \<and> x \<in> set (tss ! j)"
    have "tss ! j = tss ! k"
    proof (rule ccontr)
      assume "tss ! j \<noteq> tss ! k"
      then have "set (tss ! j) \<inter> set (tss ! k) = {}"
        using disj j k by simp
      with j k show False by auto
    qed
    with dt j k show "j = k"
      by (simp add: nth_eq_iff_index_eq)
  qed
qed

text \<open>
  Claim C3. The batches of a list of distinct page identifiers, put one after the other,
  are that list again; no batch is empty or longer than 32; every identifier lies in
  exactly one batch; the batches together hold the identifiers of the input and nothing
  twice.
\<close>

theorem make_tasks_partition:
  "distinct pageids_list \<Longrightarrow>
     concat (make_tasks pageids_list) = pageids_list
   \<and> (\<forall>b \<in> set (make_tasks pageids_list). b \<noteq> [] \<and> length b \<le> 32)
   \<and> (\<forall>x \<in> set pageids_list.
        \<exists>!k. k < length (make_tasks pageids_list) \<and> x \<in> set (make_tasks pageids_list ! k))
   \<and> \<Union> (set ` set (make_tasks pageids_list)) = set pageids_list
   \<and> distinct (concat (make_tasks pageids_list))"
proof -
  assume d: "distinct pageids_list"
  let ?ts = "make_tasks pageids_list"
  have c: "concat ?ts = pageids_list" by (rule make_tasks_concat)
  have b: "\<forall>b \<in> set ?ts. b \<noteq> [] \<and> length b \<le> 32"
    using make_tasks_batches [of pageids_list] by (simp add: batch_size_def)
  have un: "\<forall>x \<in> set pageids_list. \<exists>!k. k < length ?ts \<and> x \<in> set (?ts ! k)"
  proof
    fix x assume "x \<in> set pageids_list"
    then show "\<exists>!k. k < length ?ts \<and> x \<in> set (?ts ! k)"
      using unique_batch [of ?ts x] b c d by simp
  qed
  have "\<Union> (set ` set ?ts) = set (concat ?ts)" by simp
  with c have "\<Union> (set ` set ?ts) = set pageids_list" by simp
  with c b un d show ?thesis by simp
qed

theorem make_tasks_partition_witness:
  "distinct [''101'', ''102'']
   \<and> concat (make_tasks [''101'', ''102'']) = [''101'', ''102'']
   \<and> make_tasks [''101'', ''102''] = [[''101'', ''102'']]
   \<and> (\<exists>!k. k < length (make_tasks [''101'', ''102'']) \<and> ''102'' \<in> set (make_tasks [''101'', ''102''] ! k))"
proof -
  have d: "distinct [''101'', ''102'']" by simp
  have m: "make_tasks [''101'', ''102''] = [[''101'', ''102'']]"
    by (simp add: make_tasks_def tasks_loop.simps slice_def batch_size_def)
  from make_tasks_partition [OF d] d m show ?thesis by simp
qed

subsection \<open>Storage\<close>

lemma execute_with_retry_insert_row:
  "execute_with_retry insert_row r db =
     (if fst (article r) \<in> set (map fst (articles_table db)) then Inl IntegrityError
      else Inr \<lparr>articles_table = articles_table db @ [article r],
               snippets_table = foldl insert_ignore (snippets_table db) (snippets r)\<rparr>)"
  by (simp add: execute_with_retry_def insert_row_def)

lemma write_loop_error:
  "write_loop db rows = (Some ex, db') \<Longrightarrow> ex = IntegrityError"
proof (induction rows arbitrary: db)
  case Nil
  then show ?case by simp
next
  case (Cons r rows)
  then show ?case
    by (auto simp: execute_with_retry_insert_row split: if_splits)
qed

lemma write_loop_duplicate:
  "\<exists>r \<in> set rows. fst (article r) \<in> set (map fst (articles_table db)) \<Longrightarrow>
   fst (write_loop db rows) = Some IntegrityError"
proof (induction rows arbitrary: db)
  case Nil
  then show ?case by simp
next
  case (Cons r rows)
  show ?case
  proof (cases "fst (article r) \<in> set (map fst (articles_table db))")
    case True
    then show ?thesis by (simp add: execute_with_retry_insert_row)
  next
    case False
    let ?db' = "\<lparr>articles_table = articles_table db @ [article r],
               snippets_table = foldl insert_ignore (snippets_table db) (snippets r)\<rparr>"
    from False Cons.prems
    have "\<exists>r' \<in> set rows. fst (article r') \<in> set (map fst (articles_table ?db'))"
      by auto
    then have "fst (write_loop ?db' rows) = Some IntegrityError"
      by (rule Cons.IH)
    with False show ?thesis by (simp add: execute_with_retry_insert_row)
  qed
qed

lemma write_loop_fresh:
  "distinct (map (fst \<circ> article) rows) \<Longrightarrow>
   set (map (fst \<circ> article) rows) \<inter> set (map fst (articles_table db)) = {} \<Longrightarrow>
   fst (write_loop db rows) = None
   \<and> articles_table (snd (write_loop db rows)) = articles_table db @ map article rows"
proof (induction rows arbitrary: db)
  case Nil
  then show ?case by simp
next
  case (Cons r rows)
  let ?db' = "\<lparr>articles_table = articles_table db @ [article r],
             snippets_table = foldl insert_ignore (snippets_table db) (snippets r)\<rparr>"
  from Cons.prems have fresh: "fst (article r) \<notin> set (map fst (articles_table db))"
    by auto
  from Cons.prems have d: "distinct (map (fst \<circ> article) rows)" by (simp add: comp_def)
  from Cons.prems
  have "set (map (fst \<circ> article) rows) \<inter> set (map fst (articles_table ?db')) = {}"
    by auto
  from Cons.IH [OF d this] fresh show ?case
    by (simp add: execute_with_retry_insert_row)
qed

lemma insert_ignore_existing:
  "fst r \<in> set (map fst tbl) \<Longrightarrow> insert_ignore tbl r = tbl"
  by (simp add: insert_ignore_def)

lemma insert_ignore_keys:
  "set (map fst (insert_ignore tbl r)) = insert (fst r) (set (map fst tbl))"
  by (auto simp: insert_ignore_def)

lemma foldl_insert_ignore_existing:
  "set (map fst rs) \<subseteq> set (map fst tbl) \<Longrightarrow> foldl insert_ignore tbl rs = tbl"
  by (induction rs arbitrary: tbl) (auto simp: insert_ignore_def)

lemma insert_ignore_distinct:
  "distinct (map fst tbl) \<Longrightarrow> distinct (map fst (insert_ignore tbl r))"
  by (auto simp: insert_ignore_def)

subsection \<open>Row construction\<close>

lemma snippets_rows_of_texts:
  "map (\<lambda>row. fst (snd row)) (snippets_rows_of cfg pageid title sn) = concat (map snd sn)"
  by (induction sn) (auto simp: snippets_rows_of_def comp_def)

lemma snippets_rows_of_ids:
  "map fst (snippets_rows_of cfg pageid title sn)
     = map (\<lambda>sni. mkid cfg (title @ sni)) (concat (map snd sn))"
  by (induction sn) (auto simp: snippets_rows_of_def comp_def)


lemma snippets_rows_of_empty:
  "snippets_rows_of cfg pageid title sn = [] \<longleftrightarrow> concat (map snd sn) = []"
proof -
  have "length (snippets_rows_of cfg pageid title sn) = length (concat (map snd sn))"
    using snippets_rows_of_texts [of cfg pageid title sn] by (metis length_map)
  then show ?thesis by (metis length_0_conv)
qed

lemma rows_loop_skip:
  assumes "extract_snippets cfg wikitext (snippet_min_size cfg) (snippet_max_size cfg) = Inr sn"
    and "concat (map snd sn) = []"
  shows "rows_loop cfg (before @ (pageid, title, wikitext) # rest) rows
           = rows_loop cfg (before @ rest) rows"
proof (induction before arbitrary: rows)
  case Nil
  from assms show ?case
    by (simp add: snippets_rows_of_empty)
next
  case (Cons a before)
  obtain p t w where a: "a = (p, t, w)" by (cases a)
  show ?case
    unfolding a by (simp add: Cons.IH Let_def split: sum.splits)
qed

subsection \<open>The exception budget\<close>

lemma work_body_keeps:
  "exception_count (snd (work_body cfg b st)) = exception_count st
   \<and> tracebacks (snd (work_body cfg b st)) = tracebacks st"
  by (simp add: work_body_def split: sum.splits prod.splits option.splits)

lemma work_cases:
  "work cfg b st =
     (case work_body cfg b st of
        (Inr v, st') \<Rightarrow> (Inr (Some ()), st')
      | (Inl ex, st') \<Rightarrow>
          (if exception_count st + 1 > 5 then Inl ex else Inr None,
           st'\<lparr>tracebacks := tracebacks st @ [ex], exception_count := exception_count st + 1\<rparr>))"
proof -
  obtain r st' where w: "work_body cfg b st = (r, st')" by (cases "work_body cfg b st")
  with work_body_keeps [of cfg b st]
  have k: "exception_count st' = exception_count st" "tracebacks st' = tracebacks st" by simp_all
  show ?thesis
    by (cases r) (simp_all add: work_def with_max_exceptions_def w k Let_def
        MAX_EXCEPTIONS_PER_SUBPROCESS_def)
qed


lemma work_count:
  assumes "work cfg b st = (out, st')"
  shows "exception_count st' = exception_count st + (if failed out then 1 else 0)
   \<and> length (tracebacks st') = length (tracebacks st) + (if failed out then 1 else 0)
   \<and> (reraised out \<longleftrightarrow> failed out \<and> exception_count st \<ge> 5)
   \<and> (failed out \<and> exception_count st < 5 \<longrightarrow> out = Inr None)"
proof -
  obtain r st1 where w: "work_body cfg b st = (r, st1)" by (cases "work_body cfg b st")
  with work_body_keeps [of cfg b st]
  have k: "exception_count st1 = exception_count st" "tracebacks st1 = tracebacks st" by simp_all
  show ?thesis
  proof (cases r)
    case (Inl ex)
    with assms w
    have o: "out = (if exception_count st + 1 > 5 then Inl ex else Inr None)"
      and s: "st' = st1\<lparr>tracebacks := tracebacks st @ [ex],
                         exception_count := exception_count st + 1\<rparr>"
      by (simp_all add: work_cases)
    show ?thesis
      unfolding o s by (simp add: failed_def reraised_def)
  next
    case (Inr v)
    with assms w have o: "out = Inr (Some ())" and s: "st' = st1"
      by (simp_all add: work_cases)
    show ?thesis
      unfolding o s by (simp add: failed_def reraised_def k)
  qed
qed


lemma failures_Cons: "failures (out # xs) = (if failed out then 1 else 0) + failures xs"
  by (simp add: failures_def)

lemma run_worker_inv:
  "run_worker cfg st batches = (outs, st') \<Longrightarrow>
   exception_count st' = exception_count st + failures outs
   \<and> length (tracebacks st') = length (tracebacks st) + failures outs
   \<and> length outs \<le> length batches
   \<and> (\<forall>i < length outs. reraised (outs ! i) \<longleftrightarrow>
          failed (outs ! i) \<and> exception_count st + failures (take (Suc i) outs) > 5)
   \<and> (\<forall>i < length outs. reraised (outs ! i) \<longrightarrow> Suc i = length outs)
   \<and> (length outs < length batches \<longrightarrow> outs \<noteq> [] \<and> reraised (last outs))
   \<and> (exception_count st \<le> 5 \<longrightarrow> exception_count st + failures outs \<le> 6)"
proof (induction batches arbitrary: st outs st')
  case Nil
  then show ?case by (simp add: failures_def)
next
  case (Cons b batches)
  obtain out st1 where w: "work cfg b st = (out, st1)" by (cases "work cfg b st")
  from work_count [OF w]
  have wc1: "exception_count st1 = exception_count st + (if failed out then 1 else 0)"
    and wc2: "length (tracebacks st1) = length (tracebacks st) + (if failed out then 1 else 0)"
    and wc3: "reraised out \<longleftrightarrow> failed out \<and> exception_count st \<ge> 5"
    by blast+
  show ?case
  proof (cases out)
    case (Inl ex)
    with w Cons.prems have o: "outs = [out]" and s: "st' = st1" by simp_all
    have rr: "reraised out" using Inl by (simp add: reraised_def)
    with wc3 have fo: "failed out" and ge: "exception_count st \<ge> 5" by simp_all
    show ?thesis
      unfolding o s using wc1 wc2 rr fo ge by (simp add: failures_Cons failures_def)
  next
    case (Inr v)
    obtain outs1 st2 where r: "run_worker cfg st1 batches = (outs1, st2)"
      by (cases "run_worker cfg st1 batches")
    with w Inr Cons.prems have o: "outs = out # outs1" and s: "st' = st2" by simp_all
    from Cons.IH [OF r]
    have ih1: "exception_count st2 = exception_count st1 + failures outs1"
      and ih2: "length (tracebacks st2) = length (tracebacks st1) + failures outs1"
      and ih3: "length outs1 \<le> length batches"
      and ih4: "\<And>j. j < length outs1 \<Longrightarrow> reraised (outs1 ! j) \<longleftrightarrow>
          failed (outs1 ! j) \<and> exception_count st1 + failures (take (Suc j) outs1) > 5"
      and ih5: "\<And>j. j < length outs1 \<Longrightarrow> reraised (outs1 ! j) \<Longrightarrow> Suc j = length outs1"
      and ih6: "length outs1 < length batches \<Longrightarrow> outs1 \<noteq> [] \<and> reraised (last outs1)"
      and ih7: "exception_count st1 \<le> 5 \<Longrightarrow> exception_count st1 + failures outs1 \<le> 6"
      by blast+
    have nr: "\<not> reraised out" using Inr by (simp add: reraised_def)
    have a: "exception_count st' = exception_count st + failures outs"
      unfolding o s failures_Cons using ih1 wc1 by simp
    have b: "length (tracebacks st') = length (tracebacks st) + failures outs"
      unfolding o s failures_Cons using ih2 wc2 by simp
    have c: "length outs \<le> length (b # batches)"
      using ih3 unfolding o by simp
    have d: "\<forall>i < length outs. reraised (outs ! i) \<longleftrightarrow>
          failed (outs ! i) \<and> exception_count st + failures (take (Suc i) outs) > 5"
    proof (intro allI impI)
      fix i assume i: "i < length outs"
      show "reraised (outs ! i) \<longleftrightarrow>
          failed (outs ! i) \<and> exception_count st + failures (take (Suc i) outs) > 5"
      proof (cases i)
        case 0
        have "failures (take (Suc 0) (out # outs1)) = (if failed out then 1 else 0)"
          by (simp add: failures_def)
        then show ?thesis
          unfolding 0 o using wc3 nr by auto
      next
        case (Suc j)
        with i have j: "j < length outs1" unfolding o by simp
        have "exception_count st + failures (take (Suc (Suc j)) (out # outs1))
                = exception_count st1 + failures (take (Suc j) outs1)"
          using wc1 by (simp add: failures_Cons)
        then show ?thesis
          unfolding o Suc using ih4 [OF j] by simp
      qed
    qed
    have e: "\<forall>i < length outs. reraised (outs ! i) \<longrightarrow> Suc i = length outs"
    proof (intro allI impI)
      fix i assume i: "i < length outs" and rr: "reraised (outs ! i)"
      show "Suc i = length outs"
      proof (cases i)
        case 0
        with rr nr show ?thesis unfolding o by simp
      next
        case (Suc j)
        with i have j: "j < length outs1" unfolding o by simp
        from rr have "reraised (outs1 ! j)" unfolding o Suc by simp
        from ih5 [OF j this] show ?thesis unfolding o Suc by simp
      qed
    qed
    have g: "length outs < length (b # batches) \<longrightarrow> outs \<noteq> [] \<and> reraised (last outs)"
      using ih6 unfolding o by auto
    have h: "exception_count st \<le> 5 \<longrightarrow> exception_count st + failures outs \<le> 6"
    proof
      assume le: "exception_count st \<le> 5"
      show "exception_count st + failures outs \<le> 6"
      proof (cases "failed out")
        case True
        with wc3 nr have "exception_count st < 5" by simp
        with wc1 True have "exception_count st1 \<le> 5" by simp
        from ih7 [OF this] wc1 True show ?thesis
          unfolding o failures_Cons by simp
      next
        case False
        with wc1 le have "exception_count st1 \<le> 5" by simp
        from ih7 [OF this] wc1 False show ?thesis
          unfolding o failures_Cons by simp
      qed
    qed
    from a b c d e g h show ?thesis by blast
  qed
qed

lemma failures_take_le: "failures (take k outs) \<le> failures outs"
proof -
  have "failures outs = failures (take k outs) + failures (drop k outs)"
    unfolding failures_def by (metis append_take_drop_id filter_append length_append)
  then show ?thesis by simp
qed

lemma failed_not_reraised: "failed out \<Longrightarrow> \<not> reraised out \<Longrightarrow> out = Inr None"
proof (cases out)
  case (Inl ex)
  assume "\<not> reraised out"
  with Inl show ?thesis by (simp add: reraised_def)
next
  case (Inr v)
  assume "failed out"
  with Inr show ?thesis by (cases v) (simp_all add: failed_def)
qed

lemma run_worker_initial:
  assumes run: "run_worker cfg (initializer db) batches = (outs, st)"
  shows "exception_count st = failures outs"
    and "length (tracebacks st) = failures outs"
    and "length outs \<le> length batches"
    and "\<And>i. i < length outs \<Longrightarrow> reraised (outs ! i) \<longleftrightarrow>
               failed (outs ! i) \<and> failures (take (Suc i) outs) > 5"
    and "\<And>i. i < length outs \<Longrightarrow> reraised (outs ! i) \<Longrightarrow> Suc i = length outs"
    and "length outs < length batches \<Longrightarrow> outs \<noteq> [] \<and> reraised (last outs)"
    and "failures outs \<le> 6"
proof -
  have z: "exception_count (initializer db) = 0" "tracebacks (initializer db) = []"
    by (simp_all add: initializer_def)
  note inv = run_worker_inv [OF run]
  note i1 = inv [THEN conjunct1]
  note i2 = inv [THEN conjunct2, THEN conjunct1]
  note i3 = inv [THEN conjunct2, THEN conjunct2, THEN conjunct1]
  note i4 = inv [THEN conjunct2, THEN conjunct2, THEN conjunct2, THEN conjunct1]
  note i5 = inv [THEN conjunct2, THEN conjunct2, THEN conjunct2, THEN conjunct2, THEN conjunct1]
  note i6 = inv [THEN conjunct2, THEN conjunct2, THEN conjunct2, THEN conjunct2, THEN conjunct2,
      THEN conjunct1]
  note i7 = inv [THEN conjunct2, THEN conjunct2, THEN conjunct2, THEN conjunct2, THEN conjunct2,
      THEN conjunct2]
  show "exception_count st = failures outs" using i1 z by simp
  show "length (tracebacks st) = failures outs" using i2 z by simp
  show "length outs \<le> length batches" by (rule i3)
  show "reraised (outs ! i) \<longleftrightarrow> failed (outs ! i) \<and> failures (take (Suc i) outs) > 5"
    if "i < length outs" for i
    using i4 [rule_format, OF that] z by simp
  show "Suc i = length outs" if "i < length outs" "reraised (outs ! i)" for i
    using i5 [rule_format, OF that] .
  show "outs \<noteq> [] \<and> reraised (last outs)" if "length outs < length batches"
    using i6 [rule_format, OF that] .
  show "failures outs \<le> 6" using i7 z by simp
qed

text \<open>
  Claim C1. A worker starts from \<open>initializer\<close> and calls \<open>work\<close> on its batches. A call that
  fails while at most five calls of this worker have failed (the failing one counted) is
  caught: the wrapper returns \<open>None\<close> and the worker goes on to its next batch, if there is
  one. The call that fails as the sixth is raised again out of the wrapper and is the last
  call of the worker. A worker with at most five failing calls processes every batch and
  nothing is raised again. Every failure is printed.
\<close>

theorem work_exception_budget:
  assumes run: "run_worker cfg (initializer db) batches = (outs, st)"
  shows "(\<forall>i < length outs. failed (outs ! i) \<and> failures (take (Suc i) outs) \<le> 5 \<longrightarrow>
            outs ! i = Inr None \<and> (Suc i < length outs \<or> Suc i = length batches))
       \<and> (\<forall>i < length outs. failed (outs ! i) \<and> failures (take (Suc i) outs) > 5 \<longrightarrow>
            reraised (outs ! i) \<and> failures (take (Suc i) outs) = 6 \<and> Suc i = length outs)
       \<and> (failures outs \<le> 5 \<longrightarrow> length outs = length batches \<and> (\<forall>out \<in> set outs. \<not> reraised out))
       \<and> length (tracebacks st) = failures outs"
proof -
  note tb = run_worker_initial(2) [OF run]
  note len = run_worker_initial(3) [OF run]
  note rr = run_worker_initial(4) [OF run]
  note lastr = run_worker_initial(5) [OF run]
  note short = run_worker_initial(6) [OF run]
  note six = run_worker_initial(7) [OF run]
  have p1: "\<forall>i < length outs. failed (outs ! i) \<and> failures (take (Suc i) outs) \<le> 5 \<longrightarrow>
            outs ! i = Inr None \<and> (Suc i < length outs \<or> Suc i = length batches)"
  proof (intro allI impI)
    fix i assume i: "i < length outs"
      and f: "failed (outs ! i) \<and> failures (take (Suc i) outs) \<le> 5"
    from rr [OF i] f have nr: "\<not> reraised (outs ! i)" by simp
    with f have none: "outs ! i = Inr None" by (simp add: failed_not_reraised)
    have "Suc i < length outs \<or> Suc i = length batches"
    proof (rule ccontr)
      assume "\<not> (Suc i < length outs \<or> Suc i = length batches)"
      with i len have e: "Suc i = length outs" and "length outs < length batches" by simp_all
      from short [OF this(2)] have "reraised (last outs)" by simp
      moreover from e have "outs \<noteq> []" by auto
      then have "last outs = outs ! (length outs - 1)" by (rule last_conv_nth)
      with e [symmetric] have "last outs = outs ! i" by simp
      ultimately show False using nr by simp
    qed
    with none show "outs ! i = Inr None \<and> (Suc i < length outs \<or> Suc i = length batches)"
      by simp
  qed
  have p2: "\<forall>i < length outs. failed (outs ! i) \<and> failures (take (Suc i) outs) > 5 \<longrightarrow>
            reraised (outs ! i) \<and> failures (take (Suc i) outs) = 6 \<and> Suc i = length outs"
  proof (intro allI impI)
    fix i assume i: "i < length outs"
      and f: "failed (outs ! i) \<and> failures (take (Suc i) outs) > 5"
    from rr [OF i] f have r: "reraised (outs ! i)" by simp
    from lastr [OF i r] have e: "Suc i = length outs" .
    then have "take (Suc i) outs = outs" by simp
    with f six have "failures (take (Suc i) outs) = 6" by simp
    with r e show "reraised (outs ! i) \<and> failures (take (Suc i) outs) = 6 \<and> Suc i = length outs"
      by simp
  qed
  have p3: "failures outs \<le> 5 \<longrightarrow> length outs = length batches \<and> (\<forall>out \<in> set outs. \<not> reraised out)"
  proof
    assume le: "failures outs \<le> 5"
    have no: "\<forall>out \<in> set outs. \<not> reraised out"
    proof
      fix out assume "out \<in> set outs"
      then obtain i where i: "i < length outs" and o: "out = outs ! i"
        by (auto simp: in_set_conv_nth)
      have "failures (take (Suc i) outs) \<le> 5"
        using failures_take_le [of "Suc i" outs] le by simp
      with rr [OF i] show "\<not> reraised out" unfolding o by simp
    qed
    have "length outs = length batches"
    proof (rule ccontr)
      assume "length outs \<noteq> length batches"
      with len have "length outs < length batches" by simp
      from short [OF this] no show False by auto
    qed
    with no show "length outs = length batches \<and> (\<forall>out \<in> set outs. \<not> reraised out)" by simp
  qed
  show ?thesis
    by (rule conjI [OF p1 conjI [OF p2 conjI [OF p3 tb]]])
qed

text \<open>
  Claim C10. \<open>exception_count\<close> is 0 after \<open>initializer\<close>; a call of \<open>work\<close> adds exactly 1
  to it when it fails and leaves it as it is when it succeeds; after a run it is the
  number of failed calls, and the call raised again is exactly the one that brings the
  failures of the worker, with or without successful calls between them, to six.
\<close>

theorem exception_count_total:
  "exception_count (initializer db) = 0
   \<and> (work cfg b st = (out, st') \<longrightarrow>
        exception_count st' = exception_count st + (if failed out then 1 else 0))
   \<and> (run_worker cfg (initializer db) batches = (outs, st'') \<longrightarrow>
        exception_count st'' = failures outs
        \<and> (\<forall>i < length outs. reraised (outs ! i) \<longleftrightarrow>
              failed (outs ! i) \<and> failures (take (Suc i) outs) = 6))"
proof -
  have z: "exception_count (initializer db) = 0"
    by (simp add: initializer_def)
  have step: "work cfg b st = (out, st') \<longrightarrow>
        exception_count st' = exception_count st + (if failed out then 1 else 0)"
  proof
    assume "work cfg b st = (out, st')"
    from work_count [OF this]
    show "exception_count st' = exception_count st + (if failed out then 1 else 0)"
      by (rule conjunct1)
  qed
  have run: "run_worker cfg (initializer db) batches = (outs, st'') \<longrightarrow>
        exception_count st'' = failures outs
        \<and> (\<forall>i < length outs. reraised (outs ! i) \<longleftrightarrow>
              failed (outs ! i) \<and> failures (take (Suc i) outs) = 6)"
  proof
    assume r: "run_worker cfg (initializer db) batches = (outs, st'')"
    note cnt = run_worker_initial(1) [OF r]
    note rr = run_worker_initial(4) [OF r]
    note six = run_worker_initial(7) [OF r]
    have "\<forall>i < length outs. reraised (outs ! i) \<longleftrightarrow>
              failed (outs ! i) \<and> failures (take (Suc i) outs) = 6"
    proof (intro allI impI)
      fix i assume i: "i < length outs"
      have "failures (take (Suc i) outs) \<le> 6"
        using failures_take_le [of "Suc i" outs] six by simp
      with rr [OF i] show "reraised (outs ! i) \<longleftrightarrow>
              failed (outs ! i) \<and> failures (take (Suc i) outs) = 6"
        by auto
    qed
    with cnt show "exception_count st'' = failures outs
        \<and> (\<forall>i < length outs. reraised (outs ! i) \<longleftrightarrow>
              failed (outs ! i) \<and> failures (take (Suc i) outs) = 6)"
      by simp
  qed
  show ?thesis
    by (rule conjI [OF z conjI [OF step run]])
qed

subsection \<open>The exception budget on a concrete run\<close>

lemma work_down:
  "work example_env [''down''] st =
     (if exception_count st + 1 > 5 then Inl (External ''unreachable'') else Inr None,
      st\<lparr>tracebacks := tracebacks st @ [External ''unreachable''],
         exception_count := exception_count st + 1\<rparr>)"
  by (simp add: work_cases work_body_def build_rows_def query_pageids_def example_env_def
      example_queryGen_def)

lemma work_102:
  "work example_env [''102''] st = (Inr (Some ()), st)"
  by (simp add: work_cases work_body_def build_rows_def query_pageids_def example_env_def
      example_queryGen_def example_page_def example_extract_def snippets_rows_of_def u_def)

lemma flaky_run:
  "fst (run_worker example_env (initializer empty_db) flaky_batches)
     = [Inr None, Inr (Some ()), Inr None, Inr (Some ()), Inr None, Inr None, Inr (Some ()),
        Inr None, Inl (External ''unreachable'')]"
  by (simp add: flaky_batches_def work_down work_102 initializer_def)

lemma flaky_run_8:
  "fst (run_worker example_env (initializer empty_db) (take 8 flaky_batches))
     = [Inr None, Inr (Some ()), Inr None, Inr (Some ()), Inr None, Inr None, Inr (Some ()),
        Inr None]"
  by (simp add: flaky_batches_def work_down work_102 initializer_def)

theorem work_exception_budget_witness:
  "failed (fst (run_worker example_env (initializer empty_db) flaky_batches) ! 8)
   \<and> failures (take (Suc 8) (fst (run_worker example_env (initializer empty_db) flaky_batches))) > 5
   \<and> reraised (fst (run_worker example_env (initializer empty_db) flaky_batches) ! 8)
   \<and> Suc 8 = length (fst (run_worker example_env (initializer empty_db) flaky_batches))
   \<and> failed (fst (run_worker example_env (initializer empty_db) flaky_batches) ! 7)
   \<and> failures (take (Suc 7) (fst (run_worker example_env (initializer empty_db) flaky_batches))) \<le> 5
   \<and> fst (run_worker example_env (initializer empty_db) flaky_batches) ! 7 = Inr None
   \<and> failures (fst (run_worker example_env (initializer empty_db) (take 8 flaky_batches))) \<le> 5
   \<and> length (fst (run_worker example_env (initializer empty_db) (take 8 flaky_batches)))
       = length (take 8 flaky_batches)"
proof -
  let ?r = "run_worker example_env (initializer empty_db) flaky_batches"
  let ?q = "run_worker example_env (initializer empty_db) (take 8 flaky_batches)"
  have r: "?r = (fst ?r, snd ?r)" by simp
  have q: "?q = (fst ?q, snd ?q)" by simp
  have f5: "failures (fst ?q) \<le> 5"
    by (simp add: flaky_run_8 failures_def failed_def)
  from work_exception_budget [OF q, THEN conjunct2, THEN conjunct2, THEN conjunct1,
      rule_format, OF f5]
  have all: "length (fst ?q) = length (take 8 flaky_batches)" by (rule conjunct1)
  have l8: "8 < length (fst ?r)" by (simp add: flaky_run)
  have l7: "7 < length (fst ?r)" by (simp add: flaky_run)
  have h8: "failed (fst ?r ! 8) \<and> failures (take (Suc 8) (fst ?r)) > 5"
    by (simp add: flaky_run failed_def failures_def)
  have h7: "failed (fst ?r ! 7) \<and> failures (take (Suc 7) (fst ?r)) \<le> 5"
    by (simp add: flaky_run failed_def failures_def)
  note budget = work_exception_budget [OF r]
  from budget [THEN conjunct1, rule_format, OF l7 h7]
  have c7: "fst ?r ! 7 = Inr None" by (rule conjunct1)
  from budget [THEN conjunct2, THEN conjunct1, rule_format, OF l8 h8]
  have c8: "reraised (fst ?r ! 8) \<and> Suc 8 = length (fst ?r)" by simp
  from h8 h7 c7 c8 f5 all show ?thesis by simp
qed

theorem exception_count_total_witness:
  "fst (run_worker example_env (initializer empty_db) (take 8 flaky_batches))
     = [Inr None, Inr (Some ()), Inr None, Inr (Some ()), Inr None, Inr None, Inr (Some ()),
        Inr None]
   \<and> exception_count (snd (run_worker example_env (initializer empty_db) (take 8 flaky_batches)))
       = 5
   \<and> \<not> reraised (fst (run_worker example_env (initializer empty_db) (take 8 flaky_batches)) ! 7)
   \<and> fst (work example_env [''down''] (initializer empty_db)) = Inr None
   \<and> exception_count (snd (work example_env [''down''] (initializer empty_db))) = 1"
proof -
  let ?r = "run_worker example_env (initializer empty_db) (take 8 flaky_batches)"
  let ?w = "work example_env [''down''] (initializer empty_db)"
  have w: "?w = (Inr None, snd ?w)"
    by (simp add: work_down initializer_def)
  have fw: "failed (Inr None)" by (simp add: failed_def)
  from exception_count_total [where db = empty_db and cfg = example_env and b = "[''down'']"
      and st = "initializer empty_db" and out = "Inr None" and st' = "snd ?w",
      THEN conjunct2, THEN conjunct1, rule_format, OF w] fw
  have step: "exception_count (snd ?w) = 1"
    by (simp add: initializer_def)
  from w have out: "fst ?w = Inr None" by (metis fst_conv)
  have r: "?r = (fst ?r, snd ?r)" by simp
  have f: "failures (fst ?r) = 5" by (simp add: flaky_run_8 failures_def failed_def)
  have l7: "7 < length (fst ?r)" by (simp add: flaky_run_8)
  have n6: "\<not> (failed (fst ?r ! 7) \<and> failures (take (Suc 7) (fst ?r)) = 6)"
    by (simp add: flaky_run_8 failures_def failed_def)
  note total = exception_count_total [of empty_db example_env "[]" "initializer empty_db"
      "Inr None" "initializer empty_db" "take 8 flaky_batches" "fst ?r" "snd ?r"]
  note run = total [THEN conjunct2, THEN conjunct2, rule_format, OF r]
  from run [THEN conjunct1] f have c: "exception_count (snd ?r) = 5" by simp
  from run [THEN conjunct2, rule_format, OF l7] n6 have "\<not> reraised (fst ?r ! 7)" by simp
  with c flaky_run_8 out step show ?thesis by simp
qed

subsection \<open>Remote fetch client\<close>

lemma pages_loop_skip:
  assumes "page_title page = None
           \<or> (\<exists>title revs. page_title page = Some title \<and> page_revisions page = Some (Some [] # revs))"
  shows "pages_loop (before @ (ident, page) # rest) = pages_loop (before @ rest)"
proof (induction before)
  case Nil
  from assms show ?case by auto
next
  case (Cons a before)
  obtain i p where a: "a = (i, p)" by (cases a)
  show ?case
    unfolding a using Cons.IH
    by (simp split: option.splits list.splits prod.splits)
qed

lemma pages_loop_yield:
  "(i, t, x) \<in> set (fst (pages_loop pages)) \<Longrightarrow>
   x \<noteq> [] \<and> (\<exists>page revs. (i, page) \<in> set pages \<and> page_title page = Some t
                \<and> page_revisions page = Some (Some x # revs))"
proof (induction pages)
  case Nil
  then show ?case by simp
next
  case (Cons a pages)
  obtain j p where a: "a = (j, p)" by (cases a)
  from Cons.prems Cons.IH show ?case
    unfolding a
    by (fastforce split: option.splits list.splits prod.splits if_splits)
qed

lemma responses_loop_yield:
  "y \<in> set (fst (responses_loop rs fin)) \<Longrightarrow>
   \<exists>pages. Some pages \<in> set rs \<and> y \<in> set (fst (pages_loop pages))"
proof (induction rs fin rule: responses_loop.induct)
  case (1 fin)
  then show ?case by simp
next
  case (2 rest fin)
  then show ?case by simp
next
  case (3 pages rest fin)
  then show ?case
    by (fastforce split: option.splits prod.splits)
qed

text \<open>
  Claim C8. An entry of the response without a title, or with a title and an empty text, is
  left out of what \<open>query_pageids\<close> yields and raises nothing: the generator runs as if
  the entry were not there. Every tuple yielded comes from an entry that has that title
  and that text, and the text is not empty.
\<close>

theorem fetch_skips_incomplete_pages:
  "(page_title page = None
      \<or> (\<exists>title revs. page_title page = Some title \<and> page_revisions page = Some (Some [] # revs))
    \<longrightarrow> pages_loop (before @ (ident, page) # rest) = pages_loop (before @ rest))
   \<and> (\<forall>y \<in> set (fst (query_pageids cfg pageids)).
        snd (snd y) \<noteq> []
        \<and> (\<exists>pages page revs. Some pages \<in> set (fst (queryGen cfg pageids))
              \<and> (fst y, page) \<in> set pages
              \<and> page_title page = Some (fst (snd y))
              \<and> page_revisions page = Some (Some (snd (snd y)) # revs)))"
proof -
  have skip: "page_title page = None
      \<or> (\<exists>title revs. page_title page = Some title \<and> page_revisions page = Some (Some [] # revs))
    \<longrightarrow> pages_loop (before @ (ident, page) # rest) = pages_loop (before @ rest)"
    using pages_loop_skip by blast
  have yielded: "\<forall>y \<in> set (fst (query_pageids cfg pageids)).
        snd (snd y) \<noteq> []
        \<and> (\<exists>pages page revs. Some pages \<in> set (fst (queryGen cfg pageids))
              \<and> (fst y, page) \<in> set pages
              \<and> page_title page = Some (fst (snd y))
              \<and> page_revisions page = Some (Some (snd (snd y)) # revs))"
  proof
    fix y assume y: "y \<in> set (fst (query_pageids cfg pageids))"
    obtain i t x where yy: "y = (i, t, x)" by (cases y)
    obtain rs fin where q: "queryGen cfg pageids = (rs, fin)" by (cases "queryGen cfg pageids")
    from y q have "y \<in> set (fst (responses_loop rs fin))"
      by (simp add: query_pageids_def)
    from responses_loop_yield [OF this]
    obtain pages where p: "Some pages \<in> set rs" and in_pages: "y \<in> set (fst (pages_loop pages))"
      by blast
    from pages_loop_yield [OF in_pages [unfolded yy]]
    have "x \<noteq> []" and "\<exists>page revs. (i, page) \<in> set pages \<and> page_title page = Some t
                \<and> page_revisions page = Some (Some x # revs)"
      by blast+
    with p q show "snd (snd y) \<noteq> []
        \<and> (\<exists>pages page revs. Some pages \<in> set (fst (queryGen cfg pageids))
              \<and> (fst y, page) \<in> set pages
              \<and> page_title page = Some (fst (snd y))
              \<and> page_revisions page = Some (Some (snd (snd y)) # revs))"
      unfolding yy by auto
  qed
  show ?thesis by (rule conjI [OF skip yielded])
qed

subsection \<open>The two loops of the worker\<close>

lemma rows_loop_fail:
  "(pageid, title, wikitext) \<in> set results \<Longrightarrow>
   extract_snippets cfg wikitext (snippet_min_size cfg) (snippet_max_size cfg) = Inl ex' \<Longrightarrow>
   \<exists>ex. rows_loop cfg results rows = Inl ex"
proof (induction results arbitrary: rows)
  case Nil
  then show ?case by simp
next
  case (Cons a results)
  obtain p t w where a: "a = (p, t, w)" by (cases a)
  show ?case
  proof (cases "extract_snippets cfg w (snippet_min_size cfg) (snippet_max_size cfg)")
    case (Inl ex)
    then show ?thesis unfolding a by simp
  next
    case (Inr sn)
    with Cons.prems a have "(pageid, title, wikitext) \<in> set results" by auto
    from Cons.IH [OF this Cons.prems(2)] Inr show ?thesis
      unfolding a by (simp add: Let_def)
  qed
qed

lemma work_body_build_error:
  "build_rows cfg b = Inl ex \<Longrightarrow> work_body cfg b st = (Inl ex, st)"
  by (simp add: work_body_def)

text \<open>
  Claim C9. The rows of a batch are all built before the first write. When the building
  raises, be it the parser on any page of the batch or the generator, \<open>work\<close> leaves the
  database as it was, whatever pages of the batch had been processed before, and the
  failure is counted.
\<close>

theorem failed_construction_writes_nothing:
  "(build_rows cfg b = Inl ex \<longrightarrow>
       work_body cfg b st = (Inl ex, st)
     \<and> chdb (snd (work cfg b st)) = chdb st
     \<and> exception_count (snd (work cfg b st)) = exception_count st + 1)
   \<and> (query_pageids cfg b = (results, fin) \<and> (pageid, title, wikitext) \<in> set results
       \<and> extract_snippets cfg wikitext (snippet_min_size cfg) (snippet_max_size cfg) = Inl ex'
      \<longrightarrow> (\<exists>ex. build_rows cfg b = Inl ex))
   \<and> (query_pageids cfg b = (results, Some ex') \<longrightarrow> (\<exists>ex. build_rows cfg b = Inl ex))"
proof -
  have a: "build_rows cfg b = Inl ex \<longrightarrow>
       work_body cfg b st = (Inl ex, st)
     \<and> chdb (snd (work cfg b st)) = chdb st
     \<and> exception_count (snd (work cfg b st)) = exception_count st + 1"
  proof
    assume "build_rows cfg b = Inl ex"
    then have wb: "work_body cfg b st = (Inl ex, st)" by (rule work_body_build_error)
    then show "work_body cfg b st = (Inl ex, st)
     \<and> chdb (snd (work cfg b st)) = chdb st
     \<and> exception_count (snd (work cfg b st)) = exception_count st + 1"
      by (simp add: work_cases)
  qed
  have b: "query_pageids cfg b = (results, fin) \<and> (pageid, title, wikitext) \<in> set results
       \<and> extract_snippets cfg wikitext (snippet_min_size cfg) (snippet_max_size cfg) = Inl ex'
      \<longrightarrow> (\<exists>ex. build_rows cfg b = Inl ex)"
  proof
    assume h: "query_pageids cfg b = (results, fin) \<and> (pageid, title, wikitext) \<in> set results
       \<and> extract_snippets cfg wikitext (snippet_min_size cfg) (snippet_max_size cfg) = Inl ex'"
    then obtain ex where "rows_loop cfg results [] = Inl ex"
      using rows_loop_fail by blast
    with h show "\<exists>ex. build_rows cfg b = Inl ex"
      by (simp add: build_rows_def)
  qed
  have c: "query_pageids cfg b = (results, Some ex') \<longrightarrow> (\<exists>ex. build_rows cfg b = Inl ex)"
    by (simp add: build_rows_def split: sum.splits)
  show ?thesis by (rule conjI [OF a conjI [OF b c]])
qed

text \<open>
  Claim C6. A fetched page for which the parser returns no snippet adds no element to
  \<open>rows\<close>, so no article row and no snippet row is written for it, and the loop goes on
  as if the page had not been fetched: it is not an error.
\<close>

theorem no_rows_without_fragments:
  assumes "extract_snippets cfg wikitext (snippet_min_size cfg) (snippet_max_size cfg) = Inr sn"
    and "concat (map snd sn) = []"
  shows "rows_loop cfg (before @ (pageid, title, wikitext) # rest) rows
           = rows_loop cfg (before @ rest) rows
       \<and> rows_loop cfg [(pageid, title, wikitext)] rows = Inr rows"
proof -
  note skip = rows_loop_skip [OF assms]
  from skip [of "[]" pageid title "[]" rows]
  have "rows_loop cfg [(pageid, title, wikitext)] rows = Inr rows" by simp
  with skip show ?thesis by simp
qed

subsection \<open>What a batch writes\<close>













subsection \<open>Write conflicts\<close>

lemma work_body_write:
  "build_rows cfg b = Inr rows \<Longrightarrow>
   fst (work_body cfg b st) = (case fst (write_loop (chdb st) rows) of Some ex \<Rightarrow> Inl ex | None \<Rightarrow> Inr ())"
  by (simp add: work_body_def split: prod.splits option.splits)

text \<open>
  Claim C7. Inserting snippet rows whose ids are all in the table is no error and leaves
  the database as it is; the id of a snippet row is \<open>mkid\<close> of the title followed by the
  snippet text and depends on nothing else. Inserting an article row whose \<open>pageid\<close> is in
  the table raises; in a batch the exception leaves the body of \<open>work\<close> and is counted by
  the wrapper. A batch whose article keys are new and distinct succeeds whatever its
  snippet ids are.
\<close>

theorem write_conflicts:
  "(set (map fst rs) \<subseteq> set (map fst (snippets_table db)) \<longrightarrow>
       execute db (InsertIgnoreSnippets rs) = Inr db)
   \<and> map fst (snippets_rows_of cfg pageid title sn)
       = map (\<lambda>sni. mkid cfg (title @ sni)) (concat (map snd sn))
   \<and> (fst (article r) \<in> set (map fst (articles_table db)) \<longrightarrow>
       execute_with_retry insert_row r db = Inl IntegrityError)
   \<and> (build_rows cfg b = Inr rows
       \<and> (\<exists>r \<in> set rows. fst (article r) \<in> set (map fst (articles_table (chdb st))))
      \<longrightarrow> fst (work_body cfg b st) = Inl IntegrityError
          \<and> exception_count (snd (work cfg b st)) = exception_count st + 1)
   \<and> (build_rows cfg b = Inr rows \<and> distinct (map (fst \<circ> article) rows)
       \<and> set (map (fst \<circ> article) rows) \<inter> set (map fst (articles_table (chdb st))) = {}
      \<longrightarrow> fst (work cfg b st) = Inr (Some ()))"
proof -
  have a: "set (map fst rs) \<subseteq> set (map fst (snippets_table db)) \<longrightarrow>
       execute db (InsertIgnoreSnippets rs) = Inr db"
    by (simp add: foldl_insert_ignore_existing)
  have b: "map fst (snippets_rows_of cfg pageid title sn)
       = map (\<lambda>sni. mkid cfg (title @ sni)) (concat (map snd sn))"
    by (rule snippets_rows_of_ids)
  have c: "fst (article r) \<in> set (map fst (articles_table db)) \<longrightarrow>
       execute_with_retry insert_row r db = Inl IntegrityError"
    by (simp add: execute_with_retry_insert_row)
  have d: "build_rows cfg b = Inr rows
       \<and> (\<exists>r \<in> set rows. fst (article r) \<in> set (map fst (articles_table (chdb st))))
      \<longrightarrow> fst (work_body cfg b st) = Inl IntegrityError
          \<and> exception_count (snd (work cfg b st)) = exception_count st + 1"
  proof
    assume h: "build_rows cfg b = Inr rows
       \<and> (\<exists>r \<in> set rows. fst (article r) \<in> set (map fst (articles_table (chdb st))))"
    then have "fst (write_loop (chdb st) rows) = Some IntegrityError"
      using write_loop_duplicate by blast
    with h have wb: "fst (work_body cfg b st) = Inl IntegrityError"
      by (simp add: work_body_write)
    obtain st1 where "work_body cfg b st = (Inl IntegrityError, st1)"
      using wb by (cases "work_body cfg b st") simp
    then have "exception_count (snd (work cfg b st)) = exception_count st + 1"
      by (simp add: work_cases)
    with wb show "fst (work_body cfg b st) = Inl IntegrityError
          \<and> exception_count (snd (work cfg b st)) = exception_count st + 1"
      by simp
  qed
  have e: "build_rows cfg b = Inr rows \<and> distinct (map (fst \<circ> article) rows)
       \<and> set (map (fst \<circ> article) rows) \<inter> set (map fst (articles_table (chdb st))) = {}
      \<longrightarrow> fst (work cfg b st) = Inr (Some ())"
  proof
    assume h: "build_rows cfg b = Inr rows \<and> distinct (map (fst \<circ> article) rows)
       \<and> set (map (fst \<circ> article) rows) \<inter> set (map fst (articles_table (chdb st))) = {}"
    then have "fst (write_loop (chdb st) rows) = None"
      using write_loop_fresh by blast
    with h have wb: "fst (work_body cfg b st) = Inr ()"
      by (simp add: work_body_write)
    obtain st1 where "work_body cfg b st = (Inr (), st1)"
      using wb by (cases "work_body cfg b st") simp
    then show "fst (work cfg b st) = Inr (Some ())"
      by (simp add: work_cases)
  qed
  show ?thesis
    by (rule conjI [OF a conjI [OF b conjI [OF c conjI [OF d e]]]])
qed

subsection \<open>Shutdown of the pool\<close>

text \<open>
  Claim C2. When the result is not ready after the wait bounded by the timeout, the next
  call on the pool is \<open>terminate\<close> (only the log line lies between): nothing waits for the
  batches in flight. When it is ready, the pool is not terminated. In both cases
  \<open>pool.join()\<close> is the last call before \<open>all done.\<close> is logged.
\<close>

theorem pool_shutdown_order:
  "(\<not> ready \<longrightarrow>
      (\<exists>pre. parse_live pageids_list timeout ready
               = pre @ [ResultWait timeout, LogInfo ''timeout, canceling the process pool!'',
                        PoolTerminate, PoolJoin]
            \<and> PoolJoin \<notin> set pre))
   \<and> (ready \<longrightarrow> PoolTerminate \<notin> set (parse_live pageids_list timeout ready))
   \<and> (\<exists>pre. main pageids_list timeout ready = pre @ [PoolJoin, LogInfo ''all done.'']
            \<and> LogInfo ''all done.'' \<notin> set pre \<and> PoolJoin \<notin> set pre)"
proof -
  let ?start = "[ResetScratchDb, GetParser, PoolCreate, MapAsync (make_tasks pageids_list),
                 PoolClose] :: 'a event list"
  have a: "\<not> ready \<longrightarrow>
      (\<exists>pre. parse_live pageids_list timeout ready
               = pre @ [ResultWait timeout, LogInfo ''timeout, canceling the process pool!'',
                        PoolTerminate, PoolJoin]
            \<and> PoolJoin \<notin> set pre)"
  proof
    assume "\<not> ready"
    then have "parse_live pageids_list timeout ready
               = ?start @ [ResultWait timeout, LogInfo ''timeout, canceling the process pool!'',
                        PoolTerminate, PoolJoin] \<and> PoolJoin \<notin> set ?start"
      by (simp add: parse_live_def)
    then show "\<exists>pre. parse_live pageids_list timeout ready
               = pre @ [ResultWait timeout, LogInfo ''timeout, canceling the process pool!'',
                        PoolTerminate, PoolJoin]
            \<and> PoolJoin \<notin> set pre"
      by (rule exI)
  qed
  have b: "ready \<longrightarrow> PoolTerminate \<notin> set (parse_live pageids_list timeout ready)"
    by (simp add: parse_live_def)
  let ?pre = "?start @ [ResultWait timeout]
                @ (if \<not> ready then [LogInfo ''timeout, canceling the process pool!'', PoolTerminate]
                   else [])"
  have "main pageids_list timeout ready = ?pre @ [PoolJoin, LogInfo ''all done.'']
            \<and> LogInfo ''all done.'' \<notin> set ?pre \<and> PoolJoin \<notin> set ?pre"
    by (simp add: main_def parse_live_def)
  then have c: "\<exists>pre. main pageids_list timeout ready = pre @ [PoolJoin, LogInfo ''all done.'']
            \<and> LogInfo ''all done.'' \<notin> set pre \<and> PoolJoin \<notin> set pre"
    by (rule exI)
  show ?thesis by (rule conjI [OF a conjI [OF b c]])
qed

subsection \<open>Concrete runs\<close>

lemma example_query:
  "query_pageids example_env [''101'', ''103'', ''104'']
     = ([(''101'', u ''Page 101'', u ''X needs citation'')], None)"
  by (simp add: query_pageids_def example_env_def example_queryGen_def example_page_def u_def)

theorem fetch_skips_incomplete_pages_witness:
  "page_title (snd (example_page ''103'')) = None
   \<and> pages_loop ([example_page ''101''] @ (''103'', snd (example_page ''103'')) # [example_page ''104''])
       = pages_loop ([example_page ''101''] @ [example_page ''104''])
   \<and> page_title (snd (example_page ''104'')) = Some (u ''Page 104'')
   \<and> page_revisions (snd (example_page ''104'')) = Some [Some []]
   \<and> pages_loop ([example_page ''101''] @ (''104'', snd (example_page ''104'')) # [])
       = pages_loop ([example_page ''101''] @ [])
   \<and> (''101'', u ''Page 101'', u ''X needs citation'')
       \<in> set (fst (query_pageids example_env [''101'', ''103'', ''104'']))
   \<and> u ''X needs citation'' \<noteq> []"
proof -
  have h: "page_title (snd (example_page ''103'')) = None"
    by (simp add: example_page_def)
  have t4: "page_title (snd (example_page ''104'')) = Some (u ''Page 104'')"
    and r4: "page_revisions (snd (example_page ''104'')) = Some [Some []]"
    by (simp_all add: example_page_def u_def)
  note empty_text = fetch_skips_incomplete_pages [of "snd (example_page ''104'')"
      "[example_page ''101'']" "''104''" "[]" example_env "[]"]
  from empty_text [THEN conjunct1] t4 r4
  have a4: "pages_loop ([example_page ''101''] @ (''104'', snd (example_page ''104'')) # [])
       = pages_loop ([example_page ''101''] @ [])"
    by blast
  have m: "(''101'', u ''Page 101'', u ''X needs citation'')
       \<in> set (fst (query_pageids example_env [''101'', ''103'', ''104'']))"
    by (simp add: example_query)
  note skips = fetch_skips_incomplete_pages [of "snd (example_page ''103'')"
      "[example_page ''101'']" "''103''" "[example_page ''104'']" example_env
      "[''101'', ''103'', ''104'']"]
  from skips [THEN conjunct1] h
  have a: "pages_loop ([example_page ''101''] @ (''103'', snd (example_page ''103'')) # [example_page ''104''])
       = pages_loop ([example_page ''101''] @ [example_page ''104''])"
    by blast
  from skips [THEN conjunct2, rule_format, OF m]
  have b: "u ''X needs citation'' \<noteq> []" by simp
  from h a t4 r4 a4 m b show ?thesis by blast
qed

lemma example_extract_plain:
  "extract_snippets example_env (u ''plain'') (snippet_min_size example_env)
     (snippet_max_size example_env) = Inr []"
  by (simp add: example_env_def example_extract_def u_def)

lemma example_extract_broken:
  "extract_snippets example_env (u ''broken'') (snippet_min_size example_env)
     (snippet_max_size example_env) = Inl (External ''parser'')"
  by (simp add: example_env_def example_extract_def u_def)

lemma example_extract_cited:
  "extract_snippets example_env (u ''X needs citation'') (snippet_min_size example_env)
     (snippet_max_size example_env) = Inr [(u ''See also'', [u ''X needs citation''])]"
  by (simp add: example_env_def example_extract_def)

theorem no_rows_without_fragments_witness:
  "extract_snippets example_env (u ''plain'') (snippet_min_size example_env)
     (snippet_max_size example_env) = Inr []
   \<and> concat (map snd ([] :: (ustring \<times> ustring list) list)) = []
   \<and> rows_loop example_env [(''102'', u ''Page 102'', u ''plain'')] [] = Inr []"
proof -
  have c: "concat (map snd ([] :: (ustring \<times> ustring list) list)) = []" by simp
  from no_rows_without_fragments [OF example_extract_plain c, of "[]" "''102''" "u ''Page 102''" "[]" "[]"]
  have "rows_loop example_env [(''102'', u ''Page 102'', u ''plain'')] [] = Inr []"
    by (rule conjunct2)
  with example_extract_plain c show ?thesis by blast
qed

lemma example_query_broken:
  "query_pageids example_env [''101'', ''105'']
     = ([(''101'', u ''Page 101'', u ''X needs citation''), (''105'', u ''Page 105'', u ''broken'')],
        None)"
  by (simp add: query_pageids_def example_env_def example_queryGen_def example_page_def u_def)

lemma example_build_broken:
  "build_rows example_env [''101'', ''105''] = Inl (External ''parser'')"
proof -
  note q = example_query_broken
  have "rows_loop example_env
          [(''101'', u ''Page 101'', u ''X needs citation''), (''105'', u ''Page 105'', u ''broken'')] []
        = Inl (External ''parser'')"
    by (simp add: example_extract_cited example_extract_broken Let_def)
  with q show ?thesis by (simp add: build_rows_def)
qed

lemma example_query_down:
  "query_pageids example_env [''down''] = ([], Some (External ''unreachable''))"
  by (simp add: query_pageids_def example_env_def example_queryGen_def)

theorem failed_construction_writes_nothing_witness:
  "build_rows example_env [''101'', ''105''] = Inl (External ''parser'')
   \<and> work_body example_env [''101'', ''105''] (initializer empty_db)
       = (Inl (External ''parser''), initializer empty_db)
   \<and> chdb (snd (work example_env [''101'', ''105''] (initializer empty_db))) = empty_db
   \<and> query_pageids example_env [''down''] = ([], Some (External ''unreachable''))
   \<and> (\<exists>ex. build_rows example_env [''down''] = Inl ex)
   \<and> (''105'', u ''Page 105'', u ''broken'') \<in> set (fst (query_pageids example_env [''101'', ''105'']))
   \<and> (\<exists>ex. build_rows example_env [''101'', ''105''] = Inl ex)"
proof -
  let ?results = "[(''101'', u ''Page 101'', u ''X needs citation''),
                   (''105'', u ''Page 105'', u ''broken'')] :: fetched list"
  have m: "(''105'', u ''Page 105'', u ''broken'') \<in> set (fst (query_pageids example_env [''101'', ''105'']))"
    by (simp add: example_query_broken)
  have hp: "query_pageids example_env [''101'', ''105''] = (?results, None)
       \<and> (''105'', u ''Page 105'', u ''broken'') \<in> set ?results
       \<and> extract_snippets example_env (u ''broken'') (snippet_min_size example_env)
            (snippet_max_size example_env) = Inl (External ''parser'')"
    by (simp add: example_query_broken example_extract_broken)
  from failed_construction_writes_nothing [where cfg = example_env and b = "[''101'', ''105'']"
      and results = ?results and fin = None and pageid = "''105''" and title = "u ''Page 105''"
      and wikitext = "u ''broken''" and ex' = "External ''parser''",
      THEN conjunct2, THEN conjunct1, rule_format, OF hp]
  have p: "\<exists>ex. build_rows example_env [''101'', ''105''] = Inl ex" .
  note no_write = failed_construction_writes_nothing [of example_env "[''101'', ''105'']"
      "External ''parser''" "initializer empty_db"]
  note unchanged = no_write [THEN conjunct1, rule_format, OF example_build_broken]
  have a: "work_body example_env [''101'', ''105''] (initializer empty_db)
       = (Inl (External ''parser''), initializer empty_db)"
    by (rule unchanged [THEN conjunct1])
  have "chdb (initializer empty_db) = empty_db"
    by (simp add: initializer_def)
  with unchanged [THEN conjunct2, THEN conjunct1]
  have b: "chdb (snd (work example_env [''101'', ''105''] (initializer empty_db))) = empty_db"
    by simp
  note down = failed_construction_writes_nothing [where cfg = example_env and b = "[''down'']"
      and results = "[]" and ex' = "External ''unreachable''"]
  from down [THEN conjunct2, THEN conjunct2, rule_format, OF example_query_down]
  have c: "\<exists>ex. build_rows example_env [''down''] = Inl ex" .
  from example_build_broken a b example_query_down c m p show ?thesis by blast
qed

lemma example_build_101:
  "build_rows example_env [''101''] = Inr [example_row]"
proof -
  have q: "query_pageids example_env [''101'']
     = ([(''101'', u ''Page 101'', u ''X needs citation'')], None)"
    by (simp add: query_pageids_def example_env_def example_queryGen_def example_page_def u_def)
  have ne: "snippets_rows_of example_env ''101'' (u ''Page 101'')
              [(u ''See also'', [u ''X needs citation''])] \<noteq> []"
    by (simp add: snippets_rows_of_def)
  have "rows_loop example_env [(''101'', u ''Page 101'', u ''X needs citation'')] []
        = Inr [example_row]"
    using ne by (simp add: example_extract_cited Let_def example_row_def)
  with q show ?thesis by (simp add: build_rows_def)
qed

theorem write_conflicts_witness:
  "set (map fst [(''k'', u ''X needs citation'', ''See_also'', ''101'')])
     \<subseteq> set (map fst (snippets_table stored_db))
   \<and> execute stored_db (InsertIgnoreSnippets [(''k'', u ''X needs citation'', ''See_also'', ''101'')])
       = Inr stored_db
   \<and> fst (article example_row) \<in> set (map fst (articles_table stored_db))
   \<and> execute_with_retry insert_row example_row stored_db = Inl IntegrityError
   \<and> build_rows example_env [''101''] = Inr [example_row]
   \<and> fst (work_body example_env [''101''] (initializer stored_db)) = Inl IntegrityError
   \<and> exception_count (snd (work example_env [''101''] (initializer stored_db))) = 1
   \<and> fst (work example_env [''101''] (initializer empty_db)) = Inr (Some ())"
proof -
  let ?rs = "[(''k'', u ''X needs citation'', ''See_also'', ''101'')] :: snippet_row list"
  have h1: "set (map fst ?rs) \<subseteq> set (map fst (snippets_table stored_db))"
    by (simp add: stored_db_def)
  have h2: "fst (article example_row) \<in> set (map fst (articles_table stored_db))"
    by (simp add: stored_db_def example_row_def)
  have h3: "build_rows example_env [''101''] = Inr [example_row]
       \<and> (\<exists>r \<in> set [example_row].
             fst (article r) \<in> set (map fst (articles_table (chdb (initializer stored_db)))))"
    using h2 by (simp add: example_build_101 initializer_def)
  have h4: "build_rows example_env [''101''] = Inr [example_row]
       \<and> distinct (map (fst \<circ> article) [example_row])
       \<and> set (map (fst \<circ> article) [example_row])
           \<inter> set (map fst (articles_table (chdb (initializer empty_db)))) = {}"
    by (simp add: example_build_101 initializer_def empty_db_def)
  note dup = write_conflicts [of ?rs stored_db example_env "''101''" "u ''Page 101''" "[]"
      example_row "[''101'']" "[example_row]" "initializer stored_db"]
  note fresh = write_conflicts [of ?rs stored_db example_env "''101''" "u ''Page 101''" "[]"
      example_row "[''101'']" "[example_row]" "initializer empty_db"]
  from dup [THEN conjunct1, rule_format, OF h1]
  have a: "execute stored_db (InsertIgnoreSnippets ?rs) = Inr stored_db" .
  from dup [THEN conjunct2, THEN conjunct2, THEN conjunct1, rule_format, OF h2]
  have c: "execute_with_retry insert_row example_row stored_db = Inl IntegrityError" .
  from dup [THEN conjunct2, THEN conjunct2, THEN conjunct2, THEN conjunct1, rule_format, OF h3]
  have d: "fst (work_body example_env [''101''] (initializer stored_db)) = Inl IntegrityError"
    and d': "exception_count (snd (work example_env [''101''] (initializer stored_db))) = 1"
    by (simp_all add: initializer_def)
  from fresh [THEN conjunct2, THEN conjunct2, THEN conjunct2, THEN conjunct2, rule_format, OF h4]
  have e: "fst (work example_env [''101''] (initializer empty_db)) = Inr (Some ())" .
  from h1 a h2 c example_build_101 d d' e show ?thesis by blast
qed

theorem pool_shutdown_order_witness:
  "\<not> False
   \<and> (\<exists>pre. parse_live [''101'', ''102''] (30::nat) False
              = pre @ [ResultWait 30, LogInfo ''timeout, canceling the process pool!'',
                       PoolTerminate, PoolJoin]
           \<and> PoolJoin \<notin> set pre)
   \<and> PoolTerminate \<notin> set (parse_live [''101'', ''102''] (30::nat) True)
   \<and> (\<exists>pre. main [''101'', ''102''] (30::nat) True = pre @ [PoolJoin, LogInfo ''all done.'']
           \<and> LogInfo ''all done.'' \<notin> set pre \<and> PoolJoin \<notin> set pre)"
proof -
  note late = pool_shutdown_order [of False "[''101'', ''102'']" "30::nat"]
  note in_time = pool_shutdown_order [of True "[''101'', ''102'']" "30::nat"]
  from late [THEN conjunct1]
  have a: "\<exists>pre. parse_live [''101'', ''102''] (30::nat) False
              = pre @ [ResultWait 30, LogInfo ''timeout, canceling the process pool!'',
                       PoolTerminate, PoolJoin]
           \<and> PoolJoin \<notin> set pre"
    by simp
  from in_time [THEN conjunct2, THEN conjunct1]
  have b: "PoolTerminate \<notin> set (parse_live [''101'', ''102''] (30::nat) True)" by simp
  note c = in_time [THEN conjunct2, THEN conjunct2]
  from a b c show ?thesis by blast
qed

subsection \<open>What a batch writes, on concrete batches\<close>













end
